theory Spec2Isabelle
  imports Main "HOL-Library.Word"
begin

section \<open>The chat server of src/server.py\<close>

text \<open>
  The server keeps one dictionary \<open>clients\<close> from client socket to user name, guarded by
  one \<open>threading.Lock\<close>, and runs \<open>_handle_client\<close> once per accepted socket. The model
  follows one handler at a time through an explicit world: the dictionary, the lock, and
  the log of every lock and socket operation in the order it happened.

  Outside the repository and taken as follows: \<open>socket.send\<close> either transmits the whole
  buffer or raises; \<open>print\<close> always succeeds; \<open>threading.Lock\<close> is not reentrant, so
  acquiring it while it is held by the acquiring thread never returns.
\<close>

subsection \<open>Python text and bytes\<close>

type_synonym byte = "8 word"
type_synonym bytes = "byte list"

text \<open>A Python \<open>str\<close> is a sequence of code points.\<close>

type_synonym str = "nat list"

definition lit :: "string \<Rightarrow> str" where
  "lit s = map of_char s"

text \<open>
  \<open>str.encode('utf-8')\<close>: each code point becomes one to four bytes; a surrogate
  (U+D800 to U+DFFF) raises UnicodeEncodeError, written \<open>None\<close>.
\<close>

definition scalar :: "nat \<Rightarrow> bool" where
  "scalar cp = (cp < 0xD800 \<or> (0xDFFF < cp \<and> cp < 0x110000))"

definition utf8_char :: "nat \<Rightarrow> nat list" where
  "utf8_char cp =
     (if cp < 0x80 then [cp]
      else if cp < 0x800 then [0xC0 + cp div 64, 0x80 + cp mod 64]
      else if cp < 0x10000 then
        [0xE0 + cp div 4096, 0x80 + (cp div 64) mod 64, 0x80 + cp mod 64]
      else
        [0xF0 + cp div 262144, 0x80 + (cp div 4096) mod 64,
         0x80 + (cp div 64) mod 64, 0x80 + cp mod 64])"

definition utf8_bytes :: "str \<Rightarrow> bytes" where
  "utf8_bytes s = map of_nat (concat (map utf8_char s))"

definition utf8_encode :: "str \<Rightarrow> bytes option" where
  "utf8_encode s = (if list_all scalar s then Some (utf8_bytes s) else None)"

text \<open>
  \<open>bytes.decode('utf-8')\<close>, strict: a stray or missing continuation byte, an overlong
  form, a surrogate or a value above U+10FFFF raises UnicodeDecodeError, written
  \<open>None\<close>.
\<close>

definition cont :: "nat \<Rightarrow> bool" where
  "cont b = (0x80 \<le> b \<and> b \<le> 0xBF)"

fun utf8_dec :: "nat list \<Rightarrow> str option" where
  "utf8_dec [] = Some []"
| "utf8_dec (b0 # bs) =
     (if b0 < 0x80 then map_option (\<lambda>s. b0 # s) (utf8_dec bs)
      else if 0xC2 \<le> b0 \<and> b0 \<le> 0xDF then
        (case bs of
           b1 # r \<Rightarrow>
             if cont b1
             then map_option (\<lambda>s. ((b0 - 0xC0) * 64 + (b1 - 0x80)) # s) (utf8_dec r)
             else None
         | _ \<Rightarrow> None)
      else if 0xE0 \<le> b0 \<and> b0 \<le> 0xEF then
        (case bs of
           b1 # b2 # r \<Rightarrow>
             if cont b1 \<and> cont b2 \<and> (if b0 = 0xE0 then 0xA0 \<le> b1 else True)
                \<and> (if b0 = 0xED then b1 \<le> 0x9F else True)
             then map_option
                    (\<lambda>s. ((b0 - 0xE0) * 4096 + (b1 - 0x80) * 64 + (b2 - 0x80)) # s)
                    (utf8_dec r)
             else None
         | _ \<Rightarrow> None)
      else if 0xF0 \<le> b0 \<and> b0 \<le> 0xF4 then
        (case bs of
           b1 # b2 # b3 # r \<Rightarrow>
             if cont b1 \<and> cont b2 \<and> cont b3 \<and> (if b0 = 0xF0 then 0x90 \<le> b1 else True)
                \<and> (if b0 = 0xF4 then b1 \<le> 0x8F else True)
             then map_option
                    (\<lambda>s. ((b0 - 0xF0) * 262144 + (b1 - 0x80) * 4096
                          + (b2 - 0x80) * 64 + (b3 - 0x80)) # s)
                    (utf8_dec r)
             else None
         | _ \<Rightarrow> None)
      else None)"

definition utf8_decode :: "bytes \<Rightarrow> str option" where
  "utf8_decode bs = utf8_dec (map unat bs)"

text \<open>
  \<open>str.strip()\<close> removes leading and trailing characters for which \<open>str.isspace\<close>
  holds.
\<close>

definition isspace :: "nat \<Rightarrow> bool" where
  "isspace cp =
     ((0x09 \<le> cp \<and> cp \<le> 0x0D) \<or> (0x1C \<le> cp \<and> cp \<le> 0x20) \<or> cp = 0x85 \<or> cp = 0xA0
      \<or> cp = 0x1680 \<or> (0x2000 \<le> cp \<and> cp \<le> 0x200A) \<or> cp = 0x2028 \<or> cp = 0x2029
      \<or> cp = 0x202F \<or> cp = 0x205F \<or> cp = 0x3000)"

definition strip :: "str \<Rightarrow> str" where
  "strip s = rev (dropWhile isspace (rev (dropWhile isspace s)))"

subsection \<open>The world: registry, lock and log\<close>

type_synonym sock = nat

datatype event =
    Acquire
  | Release
  | Sent sock bytes
  | SendError sock
  | Closed sock

text \<open>
  \<open>clients\<close> is the dict \<open>self.clients\<close> in insertion order; \<open>lock\<close> tells whether
  \<open>self.lock\<close> is held; \<open>broken\<close> are the sockets whose peer is gone (a send raises);
  \<open>closed\<close> are the sockets the server has closed; \<open>trace\<close> is the log.
\<close>

record world =
  clients :: "(sock \<times> str) list"
  lock :: bool
  broken :: "sock set"
  closed :: "sock set"
  trace :: "event list"

definition emit :: "event \<Rightarrow> world \<Rightarrow> world" where
  "emit e w = w\<lparr>trace := trace w @ [e]\<rparr>"

text \<open>What a run ends in: it returned, it is blocked for ever on the lock, or it is
  blocked in \<open>recv\<close> with nothing more to read.\<close>

datatype outcome = Done world | Deadlock world | Waiting world

fun world_of :: "outcome \<Rightarrow> world" where
  "world_of (Done w) = w"
| "world_of (Deadlock w) = w"
| "world_of (Waiting w) = w"

fun sent_to :: "sock \<Rightarrow> event list \<Rightarrow> bytes list" where
  "sent_to c [] = []"
| "sent_to c (Sent c' b # es) = (if c' = c then b # sent_to c es else sent_to c es)"
| "sent_to c (_ # es) = sent_to c es"

definition delivered :: "sock \<Rightarrow> world \<Rightarrow> bytes list" where
  "delivered c w = sent_to c (trace w)"

subsection \<open>Dictionary operations\<close>

definition dict_keys :: "(sock \<times> str) list \<Rightarrow> sock list" where
  "dict_keys d = map fst d"

definition dict_set :: "(sock \<times> str) list \<Rightarrow> sock \<Rightarrow> str \<Rightarrow> (sock \<times> str) list" where
  "dict_set d k v =
     (if k \<in> set (dict_keys d)
      then map (\<lambda>(k', v'). if k' = k then (k', v) else (k', v')) d
      else d @ [(k, v)])"

definition dict_pop :: "(sock \<times> str) list \<Rightarrow> sock \<Rightarrow> (sock \<times> str) list" where
  "dict_pop d k = filter (\<lambda>(k', v'). k' \<noteq> k) d"

subsection \<open>Lock and socket primitives\<close>

definition acquire :: "world \<Rightarrow> world" where
  "acquire w = emit Acquire (w\<lparr>lock := True\<rparr>)"

definition release :: "world \<Rightarrow> world" where
  "release w = emit Release (w\<lparr>lock := False\<rparr>)"

text \<open>\<open>socket.send\<close>: the flag tells whether it returned (\<open>True\<close>) or raised.\<close>

definition sock_send :: "sock \<Rightarrow> bytes \<Rightarrow> world \<Rightarrow> bool \<times> world" where
  "sock_send c b w =
     (if c \<in> broken w \<or> c \<in> closed w then (False, emit (SendError c) w)
      else (True, emit (Sent c b) w))"

definition sock_close :: "sock \<Rightarrow> world \<Rightarrow> world" where
  "sock_close c w = emit (Closed c) (w\<lparr>closed := insert c (closed w)\<rparr>)"

subsection \<open>broadcast (server.py, lines 87 to 95)\<close>

text \<open>The body of the loop: \<open>try: client_socket.send(message.encode('utf-8'))\<close> with
  \<open>except: pass\<close>, for every socket but the excluded one.\<close>

definition send_quietly :: "str \<Rightarrow> sock option \<Rightarrow> world \<Rightarrow> sock \<Rightarrow> world" where
  "send_quietly message exclude w c =
     (if Some c \<noteq> exclude
      then (case utf8_encode message of
              None \<Rightarrow> w
            | Some b \<Rightarrow> snd (sock_send c b w))
      else w)"

definition broadcast :: "str \<Rightarrow> sock option \<Rightarrow> world \<Rightarrow> outcome" where
  "broadcast message exclude w =
     (if lock w then Deadlock w
      else Done (release (foldl (send_quietly message exclude) (acquire w)
                                (dict_keys (clients w)))))"

subsection \<open>_handle_client (server.py, lines 48 to 85)\<close>

definition BUFFER_SIZE :: nat where
  "BUFFER_SIZE = 1024"

definition welcome_msg :: str where
  "welcome_msg = lit ''Welcome! Enter your username''"

text \<open>The outcome of one call \<open>client_socket.recv(BUFFER_SIZE)\<close>: the bytes read, empty
  at end of stream, or an exception.\<close>

datatype recv_result = Bytes bytes | RecvError

text \<open>
  What arrives on a connection, and how successive \<open>recv(n)\<close> calls see it: a segment
  longer than \<open>n\<close> is read in pieces of at most \<open>n\<close> bytes and an empty segment is not
  seen at all. Once the stream has ended every further \<open>recv\<close> returns \<open>b''\<close> at once
  and nothing that follows is ever read. \<open>_handle_client\<close> reads at most twice from
  then on, the user name if it is still due and one read of the loop, which then leaves
  (\<open>end_of_stream_two_reads\<close> below), so two empty reads stand for the endless run of
  them.
\<close>

datatype arrival = Data bytes | Eof | Reset

function chop :: "nat \<Rightarrow> bytes \<Rightarrow> bytes list" where
  "chop n bs = (if bs = [] \<or> n = 0 then [] else take n bs # chop n (drop n bs))"
  by pat_completeness auto
termination
  by (relation "measure (\<lambda>(n, bs). length bs)") auto

declare chop.simps [simp del]

fun recv_results :: "nat \<Rightarrow> arrival list \<Rightarrow> recv_result list" where
  "recv_results n [] = []"
| "recv_results n (Data bs # q) = map Bytes (chop n bs) @ recv_results n q"
| "recv_results n (Eof # q) = [Bytes [], Bytes []]"
| "recv_results n (Reset # q) = RecvError # recv_results n q"

text \<open>Lines 58 and 59: \<open>with self.lock: self.clients[client_socket] = username\<close>.\<close>

definition register :: "sock \<Rightarrow> str \<Rightarrow> world \<Rightarrow> outcome" where
  "register c username w =
     (if lock w then Deadlock w
      else Done (release ((acquire w)\<lparr>clients := dict_set (clients w) c username\<rparr>)))"

text \<open>
  Lines 75 to 85, the \<open>finally\<close> block. The call of \<open>broadcast\<close> on line 80 is inside
  \<open>with self.lock\<close>; were it to return, the lock would be released and the socket
  closed.
\<close>

definition cleanup :: "sock \<Rightarrow> world \<Rightarrow> outcome" where
  "cleanup c w =
     (if lock w then Deadlock w
      else
        let w1 = acquire w in
        (case map_of (clients w1) c of
           None \<Rightarrow> Done (sock_close c (release w1))
         | Some username \<Rightarrow>
             (case broadcast (username @ lit '' left the chat'') None
                     (w1\<lparr>clients := dict_pop (clients w1) c\<rparr>) of
                Done w2 \<Rightarrow> Done (sock_close c (release w2))
              | Deadlock w2 \<Rightarrow> Deadlock w2
              | Waiting w2 \<Rightarrow> Waiting w2)))"

text \<open>Lines 65 to 71, the receive loop, over the results of its \<open>recv\<close> calls. Leaving
  the loop, by \<open>break\<close> or by an exception, runs the \<open>finally\<close> block.\<close>

fun recv_loop :: "sock \<Rightarrow> str \<Rightarrow> recv_result list \<Rightarrow> world \<Rightarrow> outcome" where
  "recv_loop c username [] w = Waiting w"
| "recv_loop c username (RecvError # rs) w = cleanup c w"
| "recv_loop c username (Bytes b # rs) w =
     (case utf8_decode b of
        None \<Rightarrow> cleanup c w
      | Some data \<Rightarrow>
          if data = [] then cleanup c w
          else (case broadcast (username @ lit '': '' @ data) (Some c) w of
                  Done w' \<Rightarrow> recv_loop c username rs w'
                | Deadlock w' \<Rightarrow> Deadlock w'
                | Waiting w' \<Rightarrow> Waiting w'))"

text \<open>Lines 56 to 62: read the user name, register it, announce it.\<close>

definition handshake :: "sock \<Rightarrow> recv_result list \<Rightarrow> world \<Rightarrow> outcome" where
  "handshake c rs w =
     (case rs of
        [] \<Rightarrow> Waiting w
      | RecvError # rs' \<Rightarrow> cleanup c w
      | Bytes b # rs' \<Rightarrow>
          (case utf8_decode b of
             None \<Rightarrow> cleanup c w
           | Some s \<Rightarrow>
               (case register c (strip s) w of
                  Done w1 \<Rightarrow>
                    (case broadcast (strip s @ lit '' joined the chat'') (Some c) w1 of
                       Done w2 \<Rightarrow> recv_loop c (strip s) rs' w2
                     | Deadlock w2 \<Rightarrow> Deadlock w2
                     | Waiting w2 \<Rightarrow> Waiting w2)
                | Deadlock w1 \<Rightarrow> Deadlock w1
                | Waiting w1 \<Rightarrow> Waiting w1)))"

definition handle_client :: "sock \<Rightarrow> recv_result list \<Rightarrow> world \<Rightarrow> outcome" where
  "handle_client c rs w =
     (case sock_send c (utf8_bytes welcome_msg) w of
        (False, w1) \<Rightarrow> cleanup c w1
      | (True, w1) \<Rightarrow> handshake c rs w1)"

text \<open>A handler serving the connection \<open>c\<close> on which \<open>inbox\<close> arrives.\<close>

definition serve :: "sock \<Rightarrow> arrival list \<Rightarrow> world \<Rightarrow> outcome" where
  "serve c inbox w = handle_client c (recv_results BUFFER_SIZE inbox) w"

text \<open>The server as \<open>__init__\<close> leaves it: no client, the lock free.\<close>

definition world0 :: world where
  "world0 = \<lparr>clients = [], lock = False, broken = {}, closed = {}, trace = []\<rparr>"

subsection \<open>Concrete rooms\<close>

text \<open>Three registered users, the second with a broken connection.\<close>

definition room3 :: world where
  "room3 = \<lparr>clients = [(1, lit ''alice''), (2, lit ''bob''), (3, lit ''carol'')],
            lock = False, broken = {2}, closed = {}, trace = []\<rparr>"

text \<open>One registered user, \<open>bob\<close> on socket 2, nothing sent yet.\<close>

definition lobby :: world where
  "lobby = \<lparr>clients = [(2, lit ''bob'')], lock = False, broken = {}, closed = {},
            trace = []\<rparr>"

subsection \<open>The spec's frames\<close>

text \<open>
  Follows the spec's words ("each frame is [4-byte big-endian length][UTF-8 payload]"):
  \<open>frame_encode\<close> puts the length before the payload, and \<open>frame_decode\<close> reads one
  whole frame back, refusing bytes that are not exactly one frame.
\<close>

definition be32 :: "nat \<Rightarrow> bytes" where
  "be32 n = [of_nat (n div 16777216), of_nat (n div 65536), of_nat (n div 256), of_nat n]"

definition be32_value :: "bytes \<Rightarrow> nat" where
  "be32_value bs = foldl (\<lambda>a b. a * 256 + unat b) 0 bs"

definition frame_encode :: "bytes \<Rightarrow> bytes" where
  "frame_encode payload = be32 (length payload) @ payload"

definition frame_decode :: "bytes \<Rightarrow> bytes option" where
  "frame_decode bs =
     (if 4 \<le> length bs \<and> be32_value (take 4 bs) = length bs - 4
      then Some (drop 4 bs) else None)"

subsection \<open>The spec's locking discipline\<close>

text \<open>
  Follows the spec's words ("sending bytes happens outside the critical section"): a
  log obeys the discipline when no send, successful or not, falls between an acquire and
  the matching release. \<open>held\<close> is the state of the lock before the log.
\<close>

fun io_outside_lock :: "bool \<Rightarrow> event list \<Rightarrow> bool" where
  "io_outside_lock held [] = True"
| "io_outside_lock held (Acquire # es) = io_outside_lock True es"
| "io_outside_lock held (Release # es) = io_outside_lock False es"
| "io_outside_lock held (Sent c b # es) = (\<not> held \<and> io_outside_lock held es)"
| "io_outside_lock held (SendError c # es) = (\<not> held \<and> io_outside_lock held es)"
| "io_outside_lock held (Closed c # es) = io_outside_lock held es"

text \<open>The socket a logged send was addressed to; \<open>None\<close> for any other event.\<close>

fun send_target :: "event \<Rightarrow> sock option" where
  "send_target (Sent c b) = Some c"
| "send_target (SendError c) = Some c"
| "send_target _ = None"

section \<open>Basic facts\<close>

lemma sent_to_append: "sent_to c (xs @ ys) = sent_to c xs @ sent_to c ys"
  by (induction c xs rule: sent_to.induct) auto

lemma emit_fields [simp]:
  "clients (emit e w) = clients w" "lock (emit e w) = lock w"
  "broken (emit e w) = broken w" "closed (emit e w) = closed w"
  "trace (emit e w) = trace w @ [e]"
  by (simp_all add: emit_def)

lemma acquire_fields [simp]:
  "clients (acquire w) = clients w" "lock (acquire w)"
  "broken (acquire w) = broken w" "closed (acquire w) = closed w"
  "trace (acquire w) = trace w @ [Acquire]"
  by (simp_all add: acquire_def)

lemma release_fields [simp]:
  "clients (release w) = clients w" "\<not> lock (release w)"
  "broken (release w) = broken w" "closed (release w) = closed w"
  "trace (release w) = trace w @ [Release]"
  by (simp_all add: release_def)

lemma delivered_acquire [simp]: "delivered d (acquire w) = delivered d w"
  by (simp add: delivered_def sent_to_append)

lemma delivered_release [simp]: "delivered d (release w) = delivered d w"
  by (simp add: delivered_def sent_to_append)

lemma send_quietly_fields [simp]:
  "clients (send_quietly m ex w c) = clients w" "lock (send_quietly m ex w c) = lock w"
  "broken (send_quietly m ex w c) = broken w" "closed (send_quietly m ex w c) = closed w"
  by (simp_all add: send_quietly_def sock_send_def split: option.splits)

lemma fanout_fields [simp]:
  "clients (foldl (send_quietly m ex) w ks) = clients w"
  "lock (foldl (send_quietly m ex) w ks) = lock w"
  "broken (foldl (send_quietly m ex) w ks) = broken w"
  "closed (foldl (send_quietly m ex) w ks) = closed w"
  by (induction ks arbitrary: w) simp_all

lemma delivered_send_quietly:
  "delivered d (send_quietly m ex w k) =
     delivered d w @ (if k = d \<and> Some d \<noteq> ex \<and> d \<notin> broken w \<and> d \<notin> closed w
                      then (case utf8_encode m of None \<Rightarrow> [] | Some b \<Rightarrow> [b]) else [])"
  by (auto simp add: delivered_def send_quietly_def sock_send_def sent_to_append
      split: option.splits)

text \<open>What one pass over the keys delivers to a socket \<open>d\<close>.\<close>

lemma delivered_fanout:
  "delivered d (foldl (send_quietly m ex) w ks) =
     delivered d w @ (if Some d \<noteq> ex \<and> d \<notin> broken w \<and> d \<notin> closed w
                      then (case utf8_encode m of None \<Rightarrow> []
                            | Some b \<Rightarrow> replicate (count_list ks d) b) else [])"
proof (induction ks arbitrary: w)
  case Nil
  then show ?case by (simp split: option.splits)
next
  case (Cons k ks)
  show ?case
    by (auto simp add: Cons.IH delivered_send_quietly split: option.splits)
qed

lemma count_list_distinct:
  "distinct ks \<Longrightarrow> count_list ks d = (if d \<in> set ks then 1 else 0)"
  by (induction ks) auto

lemma broadcast_free:
  "\<not> lock w \<Longrightarrow>
   broadcast m ex w =
     Done (release (foldl (send_quietly m ex) (acquire w) (dict_keys (clients w))))"
  by (simp add: broadcast_def)

lemma broadcast_held: "lock w \<Longrightarrow> broadcast m ex w = Deadlock w"
  by (simp add: broadcast_def)

section \<open>Broadcast\<close>

text \<open>
  C4. A broadcast started with the lock free returns normally, and every registered
  recipient that is not excluded and whose connection works gets the message, whichever
  other recipients are broken.
\<close>

theorem broadcast_isolation:
  assumes "\<not> lock w" and "distinct (dict_keys (clients w))"
    and "utf8_encode message = Some b"
    and "r \<in> set (dict_keys (clients w))" and "Some r \<noteq> exclude"
    and "r \<notin> broken w" and "r \<notin> closed w"
  shows "\<exists>w'. broadcast message exclude w = Done w'
           \<and> delivered r w' = delivered r w @ [b]"
  using assms by (simp add: broadcast_free delivered_fanout count_list_distinct)

lemma encode_hi: "utf8_encode (lit ''hi'') = Some [104, 105]"
  by (simp add: utf8_encode_def utf8_bytes_def lit_def utf8_char_def scalar_def)

theorem broadcast_isolation_witness:
  "\<not> lock room3 \<and> distinct (dict_keys (clients room3))
   \<and> utf8_encode (lit ''hi'') = Some [104, 105]
   \<and> 3 \<in> set (dict_keys (clients room3)) \<and> Some 3 \<noteq> (None :: sock option)
   \<and> 2 \<in> broken room3 \<and> 3 \<notin> broken room3 \<and> 3 \<notin> closed room3
   \<and> (\<exists>w'. broadcast (lit ''hi'') None room3 = Done w'
           \<and> delivered 3 w' = delivered 3 room3 @ [[104, 105]])"
  using broadcast_isolation [of room3 "lit ''hi''" "[104, 105]" 3 None]
  by (simp add: room3_def dict_keys_def encode_hi)

section \<open>The lock and the sends\<close>

lemma trace_send_quietly:
  "utf8_encode m = Some b \<Longrightarrow>
   \<exists>es. trace (send_quietly m ex w k) = trace w @ es
      \<and> map send_target es = (if Some k \<noteq> ex then [Some k] else [])"
  by (simp add: send_quietly_def sock_send_def)

lemma trace_fanout:
  "utf8_encode m = Some b \<Longrightarrow>
   \<exists>es. trace (foldl (send_quietly m ex) w ks) = trace w @ es
      \<and> map send_target es = map Some (filter (\<lambda>k. Some k \<noteq> ex) ks)"
proof (induction ks arbitrary: w)
  case Nil
  then show ?case by simp
next
  case (Cons k ks)
  from trace_send_quietly [OF Cons.prems, of ex w k]
  obtain e1 where e1: "trace (send_quietly m ex w k) = trace w @ e1"
    "map send_target e1 = (if Some k \<noteq> ex then [Some k] else [])" by blast
  from Cons.IH [OF Cons.prems, of "send_quietly m ex w k"]
  obtain e2 where e2: "trace (foldl (send_quietly m ex) (send_quietly m ex w k) ks)
       = trace (send_quietly m ex w k) @ e2"
    "map send_target e2 = map Some (filter (\<lambda>k. Some k \<noteq> ex) ks)" by blast
  have "trace (foldl (send_quietly m ex) w (k # ks)) = trace w @ (e1 @ e2)"
    using e1 e2 by simp
  moreover have "map send_target (e1 @ e2) = map Some (filter (\<lambda>k. Some k \<noteq> ex) (k # ks))"
    using e1 e2 by simp
  ultimately show ?case by blast
qed

text \<open>
  C3, as the code has it. \<open>broadcast\<close> holds the lock for its whole fan-out: what it
  adds to the log is an acquire, then one send attempt for each key of the registry other
  than the excluded one, in the registry's order, then the release.
\<close>

theorem broadcast_sends_under_lock:
  assumes "\<not> lock w" and "utf8_encode message = Some b"
  shows "\<exists>w' es. broadcast message exclude w = Done w'
           \<and> trace w' = trace w @ [Acquire] @ es @ [Release]
           \<and> map send_target es
               = map Some (filter (\<lambda>k. Some k \<noteq> exclude) (dict_keys (clients w)))"
proof -
  from trace_fanout [OF assms(2), of exclude "acquire w" "dict_keys (clients w)"]
  obtain es where es: "trace (foldl (send_quietly message exclude) (acquire w)
        (dict_keys (clients w))) = trace (acquire w) @ es"
     "map send_target es = map Some (filter (\<lambda>k. Some k \<noteq> exclude) (dict_keys (clients w)))"
    by blast
  show ?thesis using assms(1) es by (simp add: broadcast_free)
qed

theorem broadcast_sends_under_lock_witness:
  "\<not> lock room3 \<and> utf8_encode (lit ''hi'') = Some [104, 105]
   \<and> (\<exists>w' es. broadcast (lit ''hi'') (Some 1) room3 = Done w'
           \<and> trace w' = trace room3 @ [Acquire] @ es @ [Release]
           \<and> map send_target es = [Some 2, Some 3])"
  using broadcast_sends_under_lock [of room3 "lit ''hi''" "[104, 105]" "Some 1"]
  by (simp add: room3_def dict_keys_def encode_hi)

lemma broadcast_room3:
  "broadcast (lit ''hi'') None room3 =
     Done (room3\<lparr>trace := [Acquire, Sent 1 [104, 105], SendError 2, Sent 3 [104, 105], Release]\<rparr>)"
  by (simp add: broadcast_def room3_def dict_keys_def send_quietly_def encode_hi sock_send_def
      acquire_def release_def emit_def)

text \<open>
  C3, as the spec states it, fails: in the room of three, the sends of a broadcast fall
  between the acquire and the release.
\<close>

theorem lock_held_across_send_counterexample:
  "\<not> io_outside_lock False (trace (world_of (broadcast (lit ''hi'') None room3)))"
  by (simp add: broadcast_room3)

section \<open>Registration\<close>

lemma map_of_replace_other:
  "x \<noteq> k \<Longrightarrow>
   map_of (map (\<lambda>(k', v'). if k' = k then (k', v) else (k', v')) d) x = map_of d x"
  by (induction d) (simp_all add: case_prod_beta)

lemma map_of_replace_same:
  "k \<in> fst ` set d \<Longrightarrow>
   map_of (map (\<lambda>(k', v'). if k' = k then (k', v) else (k', v')) d) k = Some v"
  by (induction d) (auto simp add: case_prod_beta)

lemma map_of_dict_set: "map_of (dict_set d k v) = (map_of d)(k \<mapsto> v)"
proof (cases "k \<in> set (dict_keys d)")
  case True
  show ?thesis
  proof
    fix x
    show "map_of (dict_set d k v) x = ((map_of d)(k \<mapsto> v)) x"
      using True
      by (cases "x = k")
        (simp_all add: dict_set_def dict_keys_def map_of_replace_other map_of_replace_same)
  qed
next
  case False
  then have "map_of d k = None" by (simp add: dict_keys_def map_of_eq_None_iff)
  then have "map_of (d @ [(k, v)]) = (map_of d)(k \<mapsto> v)"
    by (auto simp: map_add_def fun_eq_iff split: option.splits)
  with False show ?thesis by (simp add: dict_set_def)
qed

lemma dict_keys_dict_set:
  "dict_keys (dict_set d k v) = (if k \<in> set (dict_keys d) then dict_keys d else dict_keys d @ [k])"
proof -
  have "map fst (map (\<lambda>(k', v'). if k' = k then (k', v) else (k', v')) d) = map fst d"
    by (induction d) auto
  then show ?thesis by (simp add: dict_set_def dict_keys_def)
qed

text \<open>
  C6, as the code has it. Registering a connection that the registry already holds
  returns normally: the name is replaced in place, the order of the keys and every other
  entry stay as they were.
\<close>

theorem register_replaces:
  assumes "\<not> lock w" and "c \<in> set (dict_keys (clients w))"
  shows "\<exists>w'. register c name w = Done w'
           \<and> map_of (clients w') c = Some name
           \<and> dict_keys (clients w') = dict_keys (clients w)
           \<and> (\<forall>k. k \<noteq> c \<longrightarrow> map_of (clients w') k = map_of (clients w) k)"
  using assms by (simp add: register_def map_of_dict_set dict_keys_dict_set)

theorem register_replaces_witness:
  "\<not> lock room3 \<and> 1 \<in> set (dict_keys (clients room3))
   \<and> (\<exists>w'. register 1 (lit ''eve'') room3 = Done w'
           \<and> map_of (clients w') 1 = Some (lit ''eve'')
           \<and> dict_keys (clients w') = dict_keys (clients room3)
           \<and> (\<forall>k. k \<noteq> 1 \<longrightarrow> map_of (clients w') k = map_of (clients room3) k))"
  using register_replaces [of room3 1 "lit ''eve''"]
  by (simp add: room3_def dict_keys_def)

text \<open>
  C6, as the spec states it, fails: registering socket 1 again does not fail, and the
  name \<open>alice\<close> is replaced.
\<close>

theorem register_duplicate_counterexample:
  "register 1 (lit ''eve'') room3 =
     Done (room3\<lparr>clients := [(1, lit ''eve''), (2, lit ''bob''), (3, lit ''carol'')],
                 trace := [Acquire, Release]\<rparr>)"
  by (simp add: register_def room3_def dict_set_def dict_keys_def acquire_def release_def emit_def)

section \<open>A failed send\<close>

lemma trace_fanout_mono: "set (trace w) \<subseteq> set (trace (foldl (send_quietly m ex) w ks))"
proof (induction ks arbitrary: w)
  case Nil
  show ?case by simp
next
  case (Cons k ks)
  have "set (trace w) \<subseteq> set (trace (send_quietly m ex w k))"
    by (auto simp add: send_quietly_def sock_send_def split: option.splits)
  with Cons.IH [of "send_quietly m ex w k"] show ?case by auto
qed

lemma send_error_logged:
  assumes "utf8_encode m = Some b" and "Some r \<noteq> ex" and "r \<in> broken w \<or> r \<in> closed w"
    and "r \<in> set ks"
  shows "SendError r \<in> set (trace (foldl (send_quietly m ex) w ks))"
  using assms(4,3)
proof (induction ks arbitrary: w)
  case Nil
  then show ?case by simp
next
  case (Cons k ks)
  show ?case
  proof (cases "k = r")
    case True
    have "SendError r \<in> set (trace (send_quietly m ex w r))"
      using assms(1,2) Cons.prems(2) by (auto simp add: send_quietly_def sock_send_def)
    with trace_fanout_mono [of "send_quietly m ex w r" m ex ks] True show ?thesis by auto
  next
    case False
    with Cons.prems have "r \<in> set ks" by simp
    moreover have "r \<in> broken (send_quietly m ex w k) \<or> r \<in> closed (send_quietly m ex w k)"
      using Cons.prems(2) by simp
    ultimately show ?thesis using Cons.IH [of "send_quietly m ex w k"] by simp
  qed
qed

lemma set_replicate_subset: "set (replicate n b) \<subseteq> {b}"
  by (induction n) auto

lemma delivered_fanout_subset:
  "utf8_encode m = Some b \<Longrightarrow>
   set (delivered d (release (foldl (send_quietly m ex) (acquire w) ks)))
     \<subseteq> set (delivered d w) \<union> {b}"
  apply (simp only: delivered_release delivered_fanout)
  apply (simp only: delivered_acquire acquire_fields)
  apply (simp only: option.case set_append split: if_splits)
  using set_replicate_subset apply fastforce
  done

text \<open>
  C5, as the code has it. A send that fails during a broadcast is swallowed: the broadcast
  returns normally, the failure is in the log, the registry is what it was (the failed
  recipient is still registered), and nothing but the message itself has been delivered to
  anyone, so no notice of departure.
\<close>

theorem broadcast_ignores_send_failure:
  assumes "\<not> lock w" and "utf8_encode message = Some b"
    and "r \<in> set (dict_keys (clients w))" and "Some r \<noteq> exclude"
    and "r \<in> broken w \<or> r \<in> closed w"
  shows "\<exists>w'. broadcast message exclude w = Done w'
           \<and> clients w' = clients w
           \<and> SendError r \<in> set (trace w')
           \<and> (\<forall>d. set (delivered d w') \<subseteq> set (delivered d w) \<union> {b})"
proof -
  let ?w' = "release (foldl (send_quietly message exclude) (acquire w) (dict_keys (clients w)))"
  have 1: "broadcast message exclude w = Done ?w'"
    using assms(1) by (rule broadcast_free)
  have 2: "clients ?w' = clients w" by simp
  have br: "r \<in> broken (acquire w) \<or> r \<in> closed (acquire w)"
    using assms(5) by simp
  have "SendError r \<in> set (trace (foldl (send_quietly message exclude) (acquire w)
            (dict_keys (clients w))))"
    by (rule send_error_logged [OF assms(2) assms(4) br assms(3)])
  then have 3: "SendError r \<in> set (trace ?w')" by simp
  have 4: "set (delivered d ?w') \<subseteq> set (delivered d w) \<union> {b}" for d
    using assms(2) by (rule delivered_fanout_subset)
  show ?thesis
    unfolding 1 using 3 4 by simp
qed

theorem broadcast_ignores_send_failure_witness:
  "\<not> lock room3 \<and> utf8_encode (lit ''hi'') = Some [104, 105]
   \<and> 2 \<in> set (dict_keys (clients room3)) \<and> Some 2 \<noteq> (None :: sock option)
   \<and> (2 \<in> broken room3 \<or> 2 \<in> closed room3)
   \<and> (\<exists>w'. broadcast (lit ''hi'') None room3 = Done w'
           \<and> clients w' = clients room3
           \<and> SendError 2 \<in> set (trace w')
           \<and> (\<forall>d. set (delivered d w') \<subseteq> set (delivered d room3) \<union> {[104, 105]}))"
  using broadcast_ignores_send_failure [of room3 "lit ''hi''" "[104, 105]" 2 None]
  by (simp add: room3_def dict_keys_def encode_hi)

text \<open>
  C5, as the spec states it, fails: after the broadcast to the room of three, the broken
  recipient 2 is still registered and neither of the others has been told that it left.
\<close>

theorem failed_recipient_stays_counterexample:
  "\<exists>w'. broadcast (lit ''hi'') None room3 = Done w'
     \<and> map_of (clients w') 2 = Some (lit ''bob'')
     \<and> utf8_bytes (lit ''bob left the chat'') \<notin> set (delivered 1 w')
     \<and> utf8_bytes (lit ''bob left the chat'') \<notin> set (delivered 3 w')"
proof -
  let ?w = "room3\<lparr>trace := [Acquire, Sent 1 [104, 105], SendError 2, Sent 3 [104, 105], Release]\<rparr>"
  have "map_of (clients ?w) 2 = Some (lit ''bob'')"
    by (simp add: room3_def)
  moreover have "utf8_bytes (lit ''bob left the chat'') \<notin> set (delivered 1 ?w)"
    by (simp add: delivered_def utf8_bytes_def lit_def utf8_char_def)
  moreover have "utf8_bytes (lit ''bob left the chat'') \<notin> set (delivered 3 ?w)"
    by (simp add: delivered_def utf8_bytes_def lit_def utf8_char_def)
  ultimately show ?thesis
    using broadcast_room3 by simp
qed

section \<open>The handler\<close>

lemma cleanup_held: "lock w \<Longrightarrow> cleanup c w = Deadlock w"
  by (simp add: cleanup_def)

lemma cleanup_unregistered:
  "\<not> lock w \<Longrightarrow> map_of (clients w) c = None \<Longrightarrow>
   cleanup c w = Done (sock_close c (release (acquire w)))"
  by (simp add: cleanup_def Let_def)

lemma cleanup_registered:
  "\<not> lock w \<Longrightarrow> map_of (clients w) c = Some n \<Longrightarrow>
   cleanup c w = Deadlock ((acquire w)\<lparr>clients := dict_pop (clients w) c\<rparr>)"
  by (simp add: cleanup_def Let_def broadcast_def)

lemma sock_close_fields [simp]:
  "clients (sock_close c w) = clients w" "lock (sock_close c w) = lock w"
  "broken (sock_close c w) = broken w" "closed (sock_close c w) = insert c (closed w)"
  "trace (sock_close c w) = trace w @ [Closed c]"
  by (simp_all add: sock_close_def)

lemma delivered_sock_close [simp]: "delivered d (sock_close c w) = delivered d w"
  by (simp add: delivered_def sent_to_append)

lemma delivered_clients_update [simp]: "delivered d (w\<lparr>clients := x\<rparr>) = delivered d w"
  by (simp add: delivered_def)

lemma delivered_cleanup: "delivered d (world_of (cleanup c w)) = delivered d w"
proof (cases "lock w")
  case True
  then show ?thesis by (simp add: cleanup_held)
next
  case False
  then show ?thesis
    by (cases "map_of (clients w) c") (simp_all add: cleanup_unregistered cleanup_registered)
qed

lemma delivered_broadcast_excluded:
  "delivered p (world_of (broadcast m (Some p) w)) = delivered p w"
  by (cases "lock w") (simp_all add: broadcast_held broadcast_free delivered_fanout)

lemma delivered_recv_loop_self:
  "delivered p (world_of (recv_loop p name rs w)) = delivered p w"
proof (induction rs arbitrary: w)
  case Nil
  show ?case by simp
next
  case (Cons r rs)
  show ?case
  proof (cases r)
    case RecvError
    then show ?thesis by (simp add: delivered_cleanup)
  next
    case (Bytes b)
    show ?thesis
    proof (cases "utf8_decode b")
      case None
      with Bytes show ?thesis by (simp add: delivered_cleanup)
    next
      case (Some data)
      show ?thesis
      proof (cases "data = []")
        case True
        with Bytes Some show ?thesis by (simp add: delivered_cleanup)
      next
        case False
        show ?thesis
        proof (cases "broadcast (name @ lit '': '' @ data) (Some p) w")
          case (Done w')
          with delivered_broadcast_excluded [of p "name @ lit '': '' @ data" w]
          have "delivered p w' = delivered p w" by simp
          with Bytes Some False Done Cons.IH [of w'] show ?thesis by simp
        next
          case (Deadlock w')
          with delivered_broadcast_excluded [of p "name @ lit '': '' @ data" w]
          have "delivered p w' = delivered p w" by simp
          with Bytes Some False Deadlock show ?thesis by simp
        next
          case (Waiting w')
          with delivered_broadcast_excluded [of p "name @ lit '': '' @ data" w]
          have "delivered p w' = delivered p w" by simp
          with Bytes Some False Waiting show ?thesis by simp
        qed
      qed
    qed
  qed
qed

lemma delivered_register [simp]: "delivered d (world_of (register c n w)) = delivered d w"
  by (simp add: register_def delivered_def sent_to_append)

lemma delivered_handshake_self:
  "delivered p (world_of (handshake p rs w)) = delivered p w"
proof (cases rs)
  case Nil
  then show ?thesis by (simp add: handshake_def)
next
  case (Cons r rs')
  show ?thesis
  proof (cases r)
    case RecvError
    with Cons show ?thesis by (simp add: handshake_def delivered_cleanup)
  next
    case (Bytes b)
    show ?thesis
    proof (cases "utf8_decode b")
      case None
      with Cons Bytes show ?thesis by (simp add: handshake_def delivered_cleanup)
    next
      case (Some s)
      have r: "delivered p (world_of (register p (strip s) w)) = delivered p w" by simp
      show ?thesis
      proof (cases "register p (strip s) w")
        case (Done w1)
        with r have w1: "delivered p w1 = delivered p w" by simp
        have b: "delivered p (world_of (broadcast (strip s @ lit '' joined the chat'') (Some p) w1))
                  = delivered p w"
          using w1 by (simp add: delivered_broadcast_excluded)
        show ?thesis
          using Cons Bytes Some Done b
          by (cases "broadcast (strip s @ lit '' joined the chat'') (Some p) w1")
            (simp_all add: handshake_def delivered_recv_loop_self)
      next
        case (Deadlock w1)
        with r Cons Bytes Some show ?thesis by (simp add: handshake_def)
      next
        case (Waiting w1)
        with r Cons Bytes Some show ?thesis by (simp add: handshake_def)
      qed
    qed
  qed
qed

text \<open>
  C7. A broadcast that excludes \<open>p\<close> delivers nothing to \<open>p\<close>, whatever the state of
  the lock and of the registry. So a whole session of \<open>p\<close>, whatever it reads, delivers to
  \<open>p\<close> itself the greeting and nothing else: neither its own messages nor the notice that
  it joined.
\<close>

theorem no_self_echo:
  "delivered p (world_of (broadcast message (Some p) w)) = delivered p w
   \<and> delivered p (world_of (handle_client p rs w))
       = delivered p w @ (if p \<in> broken w \<or> p \<in> closed w then []
                          else [utf8_bytes welcome_msg])"
proof
  show "delivered p (world_of (broadcast message (Some p) w)) = delivered p w"
    by (rule delivered_broadcast_excluded)
next
  show "delivered p (world_of (handle_client p rs w))
       = delivered p w @ (if p \<in> broken w \<or> p \<in> closed w then []
                          else [utf8_bytes welcome_msg])"
    by (simp add: handle_client_def sock_send_def delivered_cleanup delivered_handshake_self)
      (simp add: delivered_def sent_to_append)
qed

theorem no_self_echo_witness:
  "delivered 1 (world_of (broadcast (lit ''hi'') (Some 1) room3)) = delivered 1 room3
   \<and> delivered 1 (world_of (handle_client 1 [Bytes [104, 105], Bytes [104, 105]] room3))
       = delivered 1 room3 @ (if 1 \<in> broken room3 \<or> 1 \<in> closed room3 then []
                              else [utf8_bytes welcome_msg])"
  using no_self_echo [of 1 "lit ''hi''" room3 "[Bytes [104, 105], Bytes [104, 105]]"]
  by simp

section \<open>Text: what decodes can be encoded\<close>

lemma scalar_two: "0xC2 \<le> b0 \<Longrightarrow> b0 \<le> 0xDF \<Longrightarrow> cont b1 \<Longrightarrow>
   scalar ((b0 - 0xC0) * 64 + (b1 - 0x80))"
  unfolding scalar_def cont_def by linarith

lemma scalar_three:
  "0xE0 \<le> b0 \<Longrightarrow> b0 \<le> 0xEF \<Longrightarrow> cont b1 \<Longrightarrow> cont b2 \<Longrightarrow>
   (if b0 = 0xED then b1 \<le> 0x9F else True) \<Longrightarrow>
   scalar ((b0 - 0xE0) * 4096 + (b1 - 0x80) * 64 + (b2 - 0x80))"
proof (cases "b0 = 0xED")
  case True
  assume "cont b1" "cont b2" "if b0 = 0xED then b1 \<le> 0x9F else True"
  with True show ?thesis unfolding scalar_def cont_def by simp linarith
next
  case False
  assume a: "0xE0 \<le> b0" "b0 \<le> 0xEF" "cont b1" "cont b2"
  from False have "b0 \<le> 0xEC \<or> 0xEE \<le> b0" by linarith
  then show ?thesis
  proof
    assume "b0 \<le> 0xEC"
    with a show ?thesis unfolding scalar_def cont_def by linarith
  next
    assume "0xEE \<le> b0"
    with a show ?thesis unfolding scalar_def cont_def by linarith
  qed
qed

lemma scalar_four:
  assumes "0xF0 \<le> b0" and "b0 \<le> 0xF4" and "cont b1" and "cont b2" and "cont b3"
    and "if b0 = 0xF0 then 0x90 \<le> b1 else True"
    and "if b0 = 0xF4 then b1 \<le> 0x8F else True"
  shows "scalar ((b0 - 0xF0) * 262144 + (b1 - 0x80) * 4096 + (b2 - 0x80) * 64 + (b3 - 0x80))"
proof -
  consider "b0 = 0xF0" | "b0 = 0xF4" | "0xF1 \<le> b0 \<and> b0 \<le> 0xF3"
    using assms(1,2) by linarith
  then show ?thesis
  proof cases
    case 1
    with assms show ?thesis unfolding scalar_def cont_def by simp linarith
  next
    case 2
    with assms show ?thesis unfolding scalar_def cont_def by simp linarith
  next
    case 3
    with assms(3,4,5) show ?thesis unfolding scalar_def cont_def by linarith
  qed
qed

lemma scalar_lit: "list_all scalar (lit s)"
proof -
  have "of_char c < (256 :: nat)" for c
    by (rule nat_of_char_less_256)
  then have "scalar (of_char c)" for c
    unfolding scalar_def by (rule disjI1 [OF less_trans]) simp
  then show ?thesis by (simp add: lit_def list_all_iff)
qed

lemma scalar_strip: "list_all scalar s \<Longrightarrow> list_all scalar (strip s)"
proof -
  have "set (strip s) \<subseteq> set s"
    by (auto simp add: strip_def dest!: set_dropWhileD)
  then show "list_all scalar s \<Longrightarrow> list_all scalar (strip s)"
    by (auto simp add: list_all_iff)
qed

lemma utf8_dec_one:
  "b0 < 0x80 \<Longrightarrow> utf8_dec (b0 # bs) = map_option (\<lambda>s. b0 # s) (utf8_dec bs)"
  by simp

lemma utf8_dec_two:
  "\<not> b0 < 0x80 \<Longrightarrow> 0xC2 \<le> b0 \<and> b0 \<le> 0xDF \<Longrightarrow>
   utf8_dec (b0 # bs) =
     (case bs of
        b1 # r \<Rightarrow>
          if cont b1
          then map_option (\<lambda>s. ((b0 - 0xC0) * 64 + (b1 - 0x80)) # s) (utf8_dec r)
          else None
      | _ \<Rightarrow> None)"
  by (simp only: utf8_dec.simps if_True if_False simp_thms)

lemma utf8_dec_three:
  "\<not> b0 < 0x80 \<Longrightarrow> \<not> (0xC2 \<le> b0 \<and> b0 \<le> 0xDF) \<Longrightarrow> 0xE0 \<le> b0 \<and> b0 \<le> 0xEF \<Longrightarrow>
   utf8_dec (b0 # bs) =
     (case bs of
        b1 # b2 # r \<Rightarrow>
          if cont b1 \<and> cont b2 \<and> (if b0 = 0xE0 then 0xA0 \<le> b1 else True)
             \<and> (if b0 = 0xED then b1 \<le> 0x9F else True)
          then map_option
                 (\<lambda>s. ((b0 - 0xE0) * 4096 + (b1 - 0x80) * 64 + (b2 - 0x80)) # s)
                 (utf8_dec r)
          else None
      | _ \<Rightarrow> None)"
  by (simp only: utf8_dec.simps if_True if_False simp_thms)

lemma utf8_dec_four:
  "\<not> b0 < 0x80 \<Longrightarrow> \<not> (0xC2 \<le> b0 \<and> b0 \<le> 0xDF) \<Longrightarrow> \<not> (0xE0 \<le> b0 \<and> b0 \<le> 0xEF) \<Longrightarrow>
   utf8_dec (b0 # bs) =
     (if 0xF0 \<le> b0 \<and> b0 \<le> 0xF4 then
        (case bs of
           b1 # b2 # b3 # r \<Rightarrow>
             if cont b1 \<and> cont b2 \<and> cont b3 \<and> (if b0 = 0xF0 then 0x90 \<le> b1 else True)
                \<and> (if b0 = 0xF4 then b1 \<le> 0x8F else True)
             then map_option
                    (\<lambda>s. ((b0 - 0xF0) * 262144 + (b1 - 0x80) * 4096
                          + (b2 - 0x80) * 64 + (b3 - 0x80)) # s)
                    (utf8_dec r)
             else None
         | _ \<Rightarrow> None)
      else None)"
  by (simp only: utf8_dec.simps if_True if_False simp_thms)

lemma utf8_dec_scalar: "utf8_dec bs = Some s \<Longrightarrow> list_all scalar s"
proof (induction bs arbitrary: s rule: utf8_dec.induct)
  case 1
  then show ?case by simp
next
  case (2 b0 bs)
  show ?case
  proof (cases "b0 < 0x80")
    case True
    with "2.prems" obtain s' where s': "utf8_dec bs = Some s'" and s: "s = b0 # s'"
      by (auto simp only: utf8_dec_one)
    have "list_all scalar s'" by (rule "2.IH"(1) [OF True s'])
    moreover have "scalar b0" using True by (simp add: scalar_def)
    ultimately show ?thesis using s by simp
  next
    case n1: False
    show ?thesis
    proof (cases "0xC2 \<le> b0 \<and> b0 \<le> 0xDF")
      case True
      from "2.prems" obtain b1 r s' where
        bs: "bs = b1 # r" and c: "cont b1" and s': "utf8_dec r = Some s'"
        and s: "s = ((b0 - 0xC0) * 64 + (b1 - 0x80)) # s'"
        unfolding utf8_dec_two [OF n1 True]
        by (auto split: list.splits if_splits)
      have "list_all scalar s'"
        by (rule "2.IH"(2) [OF n1 True bs c s'])
      with s c True show ?thesis by (simp add: scalar_two)
    next
      case n2: False
      show ?thesis
      proof (cases "0xE0 \<le> b0 \<and> b0 \<le> 0xEF")
        case True
        from "2.prems" obtain b1 b2 r s' where
          bs: "bs = b1 # b2 # r"
          and c: "cont b1 \<and> cont b2 \<and> (if b0 = 0xE0 then 0xA0 \<le> b1 else True)
                \<and> (if b0 = 0xED then b1 \<le> 0x9F else True)"
          and s': "utf8_dec r = Some s'"
          and s: "s = ((b0 - 0xE0) * 4096 + (b1 - 0x80) * 64 + (b2 - 0x80)) # s'"
          unfolding utf8_dec_three [OF n1 n2 True]
          by (auto split: list.splits if_splits)
        have "list_all scalar s'"
          by (rule "2.IH"(3) [OF n1 n2 True bs refl c s'])
        with s c True show ?thesis by (simp add: scalar_three)
      next
        case n3: False
        from "2.prems" obtain b1 b2 b3 r s' where
          b0: "0xF0 \<le> b0 \<and> b0 \<le> 0xF4"
          and bs: "bs = b1 # b2 # b3 # r"
          and c: "cont b1 \<and> cont b2 \<and> cont b3 \<and> (if b0 = 0xF0 then 0x90 \<le> b1 else True)
                \<and> (if b0 = 0xF4 then b1 \<le> 0x8F else True)"
          and s': "utf8_dec r = Some s'"
          and s: "s = ((b0 - 0xF0) * 262144 + (b1 - 0x80) * 4096 + (b2 - 0x80) * 64
                        + (b3 - 0x80)) # s'"
          unfolding utf8_dec_four [OF n1 n2 n3]
          by (auto split: list.splits if_splits)
        have "list_all scalar s'"
          by (rule "2.IH"(4) [OF n1 n2 n3 b0 bs refl refl c s'])
        with s c b0 show ?thesis by (simp add: scalar_four)
      qed
    qed
  qed
qed

lemma scalar_decode: "utf8_decode b = Some s \<Longrightarrow> list_all scalar s"
  by (simp add: utf8_decode_def utf8_dec_scalar)

lemma utf8_dec_nonempty: "utf8_dec (b0 # bs) \<noteq> Some []"
proof (cases "b0 < 0x80")
  case True
  then show ?thesis by (simp only: utf8_dec_one) simp
next
  case n1: False
  show ?thesis
  proof (cases "0xC2 \<le> b0 \<and> b0 \<le> 0xDF")
    case True
    show ?thesis
      unfolding utf8_dec_two [OF n1 True] by (simp split: list.splits)
  next
    case n2: False
    show ?thesis
    proof (cases "0xE0 \<le> b0 \<and> b0 \<le> 0xEF")
      case True
      show ?thesis
        unfolding utf8_dec_three [OF n1 n2 True] by (simp split: list.splits)
    next
      case n3: False
      show ?thesis
        unfolding utf8_dec_four [OF n1 n2 n3] by (simp split: list.splits)
    qed
  qed
qed

lemma utf8_decode_empty: "utf8_decode b = Some [] \<Longrightarrow> b = []"
  by (cases b) (simp_all add: utf8_decode_def utf8_dec_nonempty del: utf8_dec.simps)

lemma encode_scalar: "list_all scalar s \<Longrightarrow> utf8_encode s = Some (utf8_bytes s)"
  by (simp add: utf8_encode_def)

section \<open>The receive loop\<close>

lemma broadcast_done:
  assumes "\<not> lock w"
  shows "\<exists>w'. broadcast m ex w = Done w' \<and> clients w' = clients w \<and> \<not> lock w'
           \<and> broken w' = broken w \<and> closed w' = closed w
           \<and> (\<forall>d. delivered d w' = delivered d w @
                 (if Some d \<noteq> ex \<and> d \<notin> broken w \<and> d \<notin> closed w
                  then (case utf8_encode m of None \<Rightarrow> []
                        | Some b \<Rightarrow> replicate (count_list (dict_keys (clients w)) d) b)
                  else []))"
  using assms by (simp add: broadcast_free delivered_fanout)

lemma broadcast_reaches:
  assumes "\<not> lock w" and "distinct (dict_keys (clients w))" and "list_all scalar m"
    and "r \<in> set (dict_keys (clients w))" and "Some r \<noteq> ex"
    and "r \<notin> broken w" and "r \<notin> closed w"
  shows "\<exists>w'. broadcast m ex w = Done w' \<and> clients w' = clients w \<and> \<not> lock w'
           \<and> broken w' = broken w \<and> closed w' = closed w
           \<and> delivered r w' = delivered r w @ [utf8_bytes m]"
  using assms
  by (simp add: broadcast_free delivered_fanout count_list_distinct encode_scalar)

lemma cleanup_not_waiting: "cleanup c w \<noteq> Waiting w'"
proof (cases "lock w")
  case True
  then show ?thesis by (simp add: cleanup_held)
next
  case False
  then show ?thesis
    by (cases "map_of (clients w) c") (simp_all add: cleanup_unregistered cleanup_registered)
qed

text \<open>Chunks that all decode to non-empty text are relayed one by one.\<close>

lemma recv_loop_relays_each:
  assumes "list_all2 (\<lambda>b d. utf8_decode b = Some d \<and> d \<noteq> []) bs datas"
    and "\<not> lock w" and "distinct (dict_keys (clients w))"
    and "r \<in> set (dict_keys (clients w))" and "r \<noteq> c"
    and "r \<notin> broken w" and "r \<notin> closed w" and "list_all scalar name"
  shows "\<exists>w'. recv_loop c name (map Bytes bs) w = Waiting w'
           \<and> delivered r w' = delivered r w @ map (\<lambda>d. utf8_bytes (name @ lit '': '' @ d)) datas"
  using assms
proof (induction bs datas arbitrary: w rule: list_all2_induct)
  case Nil
  then show ?case by simp
next
  case (Cons b bs d datas)
  have sc: "list_all scalar (name @ lit '': '' @ d)"
    using Cons.prems(7) Cons.hyps(1) by (auto simp add: scalar_lit dest: scalar_decode)
  from broadcast_reaches [OF Cons.prems(1,2) sc Cons.prems(3) _ Cons.prems(5,6), of "Some c"]
    Cons.prems(4)
  obtain w1 where w1: "broadcast (name @ lit '': '' @ d) (Some c) w = Done w1"
    "clients w1 = clients w" "\<not> lock w1" "broken w1 = broken w" "closed w1 = closed w"
    "delivered r w1 = delivered r w @ [utf8_bytes (name @ lit '': '' @ d)]"
    by auto
  from Cons.IH [of w1] w1 Cons.prems
  obtain w' where w': "recv_loop c name (map Bytes bs) w1 = Waiting w'"
    "delivered r w' = delivered r w1 @ map (\<lambda>d. utf8_bytes (name @ lit '': '' @ d)) datas"
    by auto
  show ?case
    using Cons.hyps(1) w1 w' by simp
qed

text \<open>Whatever is read, what a live recipient gets from the loop are relayed chunks.\<close>

lemma recv_loop_format:
  assumes "\<not> lock w" and "distinct (dict_keys (clients w))"
    and "r \<in> set (dict_keys (clients w))" and "r \<noteq> c"
    and "r \<notin> broken w" and "r \<notin> closed w" and "list_all scalar name"
    and "map_of (clients w) c = Some name"
  shows "\<exists>datas. delivered r (world_of (recv_loop c name rs w))
             = delivered r w @ map (\<lambda>d. utf8_bytes (name @ lit '': '' @ d)) datas
           \<and> set datas \<subseteq> {d. \<exists>b. Bytes b \<in> set rs \<and> utf8_decode b = Some d}
           \<and> (\<forall>w'. recv_loop c name rs w = Waiting w' \<longrightarrow> map_of (clients w') c = Some name)"
  using assms
proof (induction rs arbitrary: w)
  case Nil
  then show ?case by (intro exI [of _ "[]"]) simp
next
  case (Cons x rs)
  have stop: ?case if "recv_loop c name (x # rs) w = cleanup c w"
    using that by (intro exI [of _ "[]"]) (simp add: delivered_cleanup cleanup_not_waiting)
  show ?case
  proof (cases x)
    case RecvError
    then show ?thesis by (intro stop) simp
  next
    case (Bytes b)
    show ?thesis
    proof (cases "utf8_decode b")
      case None
      with Bytes show ?thesis by (intro stop) simp
    next
      case (Some d)
      show ?thesis
      proof (cases "d = []")
        case True
        with Bytes Some show ?thesis by (intro stop) simp
      next
        case False
        have sc: "list_all scalar (name @ lit '': '' @ d)"
          using Cons.prems(7) Some by (simp add: scalar_lit scalar_decode)
        from broadcast_reaches [OF Cons.prems(1,2) sc Cons.prems(3) _ Cons.prems(5,6), of "Some c"]
          Cons.prems(4)
        obtain w1 where w1: "broadcast (name @ lit '': '' @ d) (Some c) w = Done w1"
          "clients w1 = clients w" "\<not> lock w1" "broken w1 = broken w" "closed w1 = closed w"
          "delivered r w1 = delivered r w @ [utf8_bytes (name @ lit '': '' @ d)]"
          by auto
        from Cons.IH [of w1] w1 Cons.prems
        obtain datas where ds:
          "delivered r (world_of (recv_loop c name rs w1))
             = delivered r w1 @ map (\<lambda>d. utf8_bytes (name @ lit '': '' @ d)) datas"
          "set datas \<subseteq> {d. \<exists>b. Bytes b \<in> set rs \<and> utf8_decode b = Some d}"
          "\<forall>w'. recv_loop c name rs w1 = Waiting w' \<longrightarrow> map_of (clients w') c = Some name"
          by auto
        have step: "recv_loop c name (x # rs) w = recv_loop c name rs w1"
          using Bytes Some False w1(1) by simp
        show ?thesis
          unfolding step
          using ds w1(6) Bytes Some
          by (intro exI [of _ "d # datas"]) auto
      qed
    qed
  qed
qed

section \<open>The handshake\<close>

lemma count_list_dict_set:
  "d \<noteq> c \<Longrightarrow> count_list (dict_keys (dict_set ds c v)) d = count_list (dict_keys ds) d"
  by (simp add: dict_keys_dict_set)

lemma distinct_dict_set:
  "distinct (dict_keys ds) \<Longrightarrow> distinct (dict_keys (dict_set ds c v))"
  by (simp add: dict_keys_dict_set)

lemma register_free:
  "\<not> lock w \<Longrightarrow>
   register c n w = Done (release ((acquire w)\<lparr>clients := dict_set (clients w) c n\<rparr>))"
  by (simp add: register_def)

lemma handshake_ok:
  assumes "\<not> lock w" and "c \<notin> broken w" and "c \<notin> closed w"
    and "utf8_decode nb = Some s"
  shows "\<exists>w2. handle_client c (Bytes nb # rs) w = recv_loop c (strip s) rs w2
           \<and> clients w2 = dict_set (clients w) c (strip s) \<and> \<not> lock w2
           \<and> broken w2 = broken w \<and> closed w2 = closed w
           \<and> (\<forall>d. delivered d w2 = delivered d w @
                 (if d = c then [utf8_bytes welcome_msg]
                  else if d \<notin> broken w \<and> d \<notin> closed w
                  then replicate (count_list (dict_keys (clients w)) d)
                         (utf8_bytes (strip s @ lit '' joined the chat''))
                  else []))"
proof -
  let ?w0 = "emit (Sent c (utf8_bytes welcome_msg)) w"
  let ?w1 = "release ((acquire ?w0)\<lparr>clients := dict_set (clients w) c (strip s)\<rparr>)"
  let ?join = "strip s @ lit '' joined the chat''"
  have sc: "list_all scalar ?join"
    using assms(4) by (auto simp add: scalar_lit intro: scalar_strip dest: scalar_decode)
  have h: "handle_client c (Bytes nb # rs) w = handshake c (Bytes nb # rs) ?w0"
    using assms(2,3) by (simp add: handle_client_def sock_send_def)
  have r: "register c (strip s) ?w0 = Done ?w1"
    using assms(1) by (simp add: register_def)
  have l1: "\<not> lock ?w1" by simp
  from broadcast_done [OF l1, of ?join "Some c"]
  obtain w2 where w2: "broadcast ?join (Some c) ?w1 = Done w2" "clients w2 = clients ?w1"
    "\<not> lock w2" "broken w2 = broken ?w1" "closed w2 = closed ?w1"
    "\<forall>d. delivered d w2 = delivered d ?w1 @
                 (if Some d \<noteq> Some c \<and> d \<notin> broken ?w1 \<and> d \<notin> closed ?w1
                  then (case utf8_encode ?join of None \<Rightarrow> []
                        | Some b \<Rightarrow> replicate (count_list (dict_keys (clients ?w1)) d) b)
                  else [])"
    by blast
  have hs: "handshake c (Bytes nb # rs) ?w0 = recv_loop c (strip s) rs w2"
    using assms(4) r w2(1) by (simp add: handshake_def)
  have d1: "delivered d ?w1 = delivered d w @ (if d = c then [utf8_bytes welcome_msg] else [])"
    for d
    by (simp add: delivered_def sent_to_append)
  have del: "delivered d w2 = delivered d w @
                 (if d = c then [utf8_bytes welcome_msg]
                  else if d \<notin> broken w \<and> d \<notin> closed w
                  then replicate (count_list (dict_keys (clients w)) d) (utf8_bytes ?join)
                  else [])" for d
    using w2(6) [rule_format, of d] d1 [of d] sc
    by (simp add: encode_scalar count_list_dict_set)
  show ?thesis
    using h hs w2(2,3,4,5) del by (intro exI [of _ w2]) simp
qed

section \<open>Sessions\<close>

text \<open>
  C9. A connection that is not registered and whose greeting cannot be sent, or whose
  first read raises, or whose first payload is not UTF-8, is closed: the handler returns,
  the registry is what it was, the lock is free, and the log has gained the greeting
  attempt, one acquire and release, and the close. Nothing was sent to anyone else, so
  no notice of joining or leaving.
\<close>

theorem failed_handshake_leaves_no_trace:
  assumes "\<not> lock w" and "map_of (clients w) c = None"
    and "c \<in> broken w \<or> c \<in> closed w \<or> rs = RecvError # rs'
         \<or> (rs = Bytes b # rs' \<and> utf8_decode b = None)"
  shows "\<exists>w' g. handle_client c rs w = Done w' \<and> clients w' = clients w \<and> \<not> lock w'
           \<and> c \<in> closed w'
           \<and> send_target g = Some c \<and> trace w' = trace w @ [g, Acquire, Release, Closed c]
           \<and> (\<forall>d. d \<noteq> c \<longrightarrow> delivered d w' = delivered d w)"
proof (cases "c \<in> broken w \<or> c \<in> closed w")
  case True
  let ?w0 = "emit (SendError c) w"
  have "handle_client c rs w = cleanup c ?w0"
    using True by (simp add: handle_client_def sock_send_def)
  also have "\<dots> = Done (sock_close c (release (acquire ?w0)))"
    using assms(1,2) by (simp add: cleanup_unregistered)
  finally show ?thesis
    by (intro exI [of _ "sock_close c (release (acquire ?w0))"] exI [of _ "SendError c"])
      (simp add: delivered_def sent_to_append)
next
  case False
  let ?w0 = "emit (Sent c (utf8_bytes welcome_msg)) w"
  have "handle_client c rs w = handshake c rs ?w0"
    using False by (simp add: handle_client_def sock_send_def)
  also have "\<dots> = cleanup c ?w0"
    using assms(3) False by (auto simp add: handshake_def)
  also have "\<dots> = Done (sock_close c (release (acquire ?w0)))"
    using assms(1,2) by (simp add: cleanup_unregistered)
  finally show ?thesis
    by (intro exI [of _ "sock_close c (release (acquire ?w0))"]
          exI [of _ "Sent c (utf8_bytes welcome_msg)"])
      (simp add: delivered_def sent_to_append)
qed

text \<open>
  C10. Whatever the first payload decodes to, the handler registers the stripped text
  under its socket, empty or not, tells every other live registered user that this name
  joined, and goes on to the receive loop under that name.
\<close>

theorem handshake_takes_any_name:
  assumes "\<not> lock w" and "distinct (dict_keys (clients w))"
    and "c \<notin> broken w" and "c \<notin> closed w" and "utf8_decode payload = Some s"
  shows "\<exists>w'. handle_client c (Bytes payload # rs) w = recv_loop c (strip s) rs w'
           \<and> clients w' = dict_set (clients w) c (strip s)
           \<and> map_of (clients w') c = Some (strip s)
           \<and> (\<forall>d. d \<noteq> c \<and> d \<in> set (dict_keys (clients w)) \<and> d \<notin> broken w \<and> d \<notin> closed w
                 \<longrightarrow> delivered d w'
                     = delivered d w @ [utf8_bytes (strip s @ lit '' joined the chat'')])"
proof -
  from handshake_ok [OF assms(1,3,4,5), of rs]
  obtain w2 where w2: "handle_client c (Bytes payload # rs) w = recv_loop c (strip s) rs w2"
    "clients w2 = dict_set (clients w) c (strip s)"
    "\<forall>d. delivered d w2 = delivered d w @
                 (if d = c then [utf8_bytes welcome_msg]
                  else if d \<notin> broken w \<and> d \<notin> closed w
                  then replicate (count_list (dict_keys (clients w)) d)
                         (utf8_bytes (strip s @ lit '' joined the chat''))
                  else [])"
    by blast
  show ?thesis
    using w2 assms(2)
    by (intro exI [of _ w2]) (simp add: map_of_dict_set count_list_distinct)
qed

text \<open>
  The notices of joining and the relayed texts. Whatever a session of \<open>c\<close> reads after
  its name, a live registered recipient gets from it the notice that the name joined and
  then texts of the form name, colon, space, body, where the name is the one registered
  for \<open>c\<close> at the handshake and each body is a decoded read of \<open>c\<close>; while the session
  is waiting for input the registry still holds that name for \<open>c\<close>.
\<close>

theorem relayed_payload_format:
  assumes "\<not> lock w" and "distinct (dict_keys (clients w))"
    and "c \<notin> broken w" and "c \<notin> closed w"
    and "r \<in> set (dict_keys (clients w))" and "r \<noteq> c"
    and "r \<notin> broken w" and "r \<notin> closed w" and "utf8_decode nb = Some s"
  shows "\<exists>datas. delivered r (world_of (handle_client c (Bytes nb # rs) w))
             = delivered r w @ map utf8_bytes ((strip s @ lit '' joined the chat'')
                                  # map (\<lambda>d. strip s @ lit '': '' @ d) datas)
           \<and> set datas \<subseteq> {d. \<exists>b. Bytes b \<in> set rs \<and> utf8_decode b = Some d}
           \<and> (\<forall>w'. handle_client c (Bytes nb # rs) w = Waiting w'
                 \<longrightarrow> map_of (clients w') c = Some (strip s))"
proof -
  from handshake_ok [OF assms(1,3,4,9), of rs]
  obtain w2 where w2: "handle_client c (Bytes nb # rs) w = recv_loop c (strip s) rs w2"
    "clients w2 = dict_set (clients w) c (strip s)" "\<not> lock w2"
    "broken w2 = broken w" "closed w2 = closed w"
    "\<forall>d. delivered d w2 = delivered d w @
                 (if d = c then [utf8_bytes welcome_msg]
                  else if d \<notin> broken w \<and> d \<notin> closed w
                  then replicate (count_list (dict_keys (clients w)) d)
                         (utf8_bytes (strip s @ lit '' joined the chat''))
                  else [])"
    by blast
  have dr: "delivered r w2 = delivered r w @ [utf8_bytes (strip s @ lit '' joined the chat'')]"
    using w2(6) [rule_format, of r] assms(2,5,6,7,8) by (simp add: count_list_distinct)
  have sc: "list_all scalar (strip s)"
    using assms(9) by (auto intro: scalar_strip dest: scalar_decode)
  have "\<exists>datas. delivered r (world_of (recv_loop c (strip s) rs w2))
             = delivered r w2 @ map (\<lambda>d. utf8_bytes (strip s @ lit '': '' @ d)) datas
           \<and> set datas \<subseteq> {d. \<exists>b. Bytes b \<in> set rs \<and> utf8_decode b = Some d}
           \<and> (\<forall>w'. recv_loop c (strip s) rs w2 = Waiting w'
                 \<longrightarrow> map_of (clients w') c = Some (strip s))"
    using w2 assms sc
    by (intro recv_loop_format) (simp_all add: distinct_dict_set dict_keys_dict_set map_of_dict_set)
  then obtain datas where ds:
    "delivered r (world_of (recv_loop c (strip s) rs w2))
             = delivered r w2 @ map (\<lambda>d. utf8_bytes (strip s @ lit '': '' @ d)) datas"
    "set datas \<subseteq> {d. \<exists>b. Bytes b \<in> set rs \<and> utf8_decode b = Some d}"
    "\<forall>w'. recv_loop c (strip s) rs w2 = Waiting w' \<longrightarrow> map_of (clients w') c = Some (strip s)"
    by blast
  show ?thesis
    unfolding w2(1) using ds dr
    by (intro exI [of _ datas]) (simp add: comp_def)
qed

section \<open>Reads and messages\<close>

lemma chop_fits: "bs \<noteq> [] \<Longrightarrow> 0 < n \<Longrightarrow> length bs \<le> n \<Longrightarrow> chop n bs = [bs]"
  by (subst chop.simps) (simp add: chop.simps [of n "[]"])

lemma recv_results_fit:
  "0 < n \<Longrightarrow> list_all (\<lambda>b. b \<noteq> [] \<and> length b \<le> n) bs \<Longrightarrow>
   recv_results n (map Data bs) = map Bytes bs"
  by (induction bs) (simp_all add: chop_fits)

text \<open>
  The end of the stream. An empty read makes the loop leave, so what follows it in the
  list of reads is never looked at; hence two empty reads are all a handler can see of
  a stream that has ended.
\<close>

lemma decode_empty: "utf8_decode [] = Some []"
  by (simp add: utf8_decode_def)

lemma recv_loop_empty_read: "recv_loop c name (Bytes [] # rs) w = cleanup c w"
  by (simp add: decode_empty)

lemma recv_loop_end_of_stream:
  "recv_loop c name (rs @ Bytes [] # later) w = recv_loop c name (rs @ [Bytes []]) w"
proof (induction rs arbitrary: w)
  case Nil
  show ?case by (simp add: decode_empty)
next
  case (Cons x rs)
  show ?case
  proof (cases x)
    case RecvError
    then show ?thesis by simp
  next
    case (Bytes b)
    then show ?thesis
      by (simp add: Cons.IH split: option.splits outcome.splits)
  qed
qed

lemma end_of_stream_two_reads:
  "handle_client c (rs @ Bytes [] # Bytes [] # later) w
     = handle_client c (rs @ [Bytes [], Bytes []]) w"
proof -
  have loop: "recv_loop c name (rs' @ Bytes [] # Bytes [] # later) w'
                = recv_loop c name (rs' @ [Bytes [], Bytes []]) w'" for name rs' w'
    using recv_loop_end_of_stream [of c name rs' "Bytes [] # later" w']
      recv_loop_end_of_stream [of c name rs' "[Bytes []]" w']
    by simp
  have hs: "handshake c (rs @ Bytes [] # Bytes [] # later) w'
              = handshake c (rs @ [Bytes [], Bytes []]) w'" for w'
  proof (cases rs)
    case Nil
    then show ?thesis
      by (simp add: handshake_def decode_empty recv_loop_empty_read
          split: outcome.splits)
  next
    case (Cons x rs')
    show ?thesis
    proof (cases x)
      case RecvError
      with Cons show ?thesis by (simp add: handshake_def)
    next
      case (Bytes b)
      with Cons show ?thesis
        by (simp add: handshake_def loop split: option.splits outcome.splits)
    qed
  qed
  show ?thesis
    by (simp add: handle_client_def hs split: prod.splits bool.splits)
qed

text \<open>
  C1, as the code has it. There are no frames: each non-empty segment of at most
  \<open>BUFFER_SIZE\<close> bytes that decodes is one read and is relayed as one message, and what
  goes on the wire is the UTF-8 text itself with nothing before it.
\<close>

theorem one_message_per_read:
  assumes "\<not> lock w" and "distinct (dict_keys (clients w))"
    and "c \<notin> broken w" and "c \<notin> closed w"
    and "r \<in> set (dict_keys (clients w))" and "r \<noteq> c"
    and "r \<notin> broken w" and "r \<notin> closed w"
    and "nb \<noteq> []" and "length nb \<le> BUFFER_SIZE" and "utf8_decode nb = Some s"
    and "list_all (\<lambda>b. b \<noteq> [] \<and> length b \<le> BUFFER_SIZE) bs"
    and "list_all2 (\<lambda>b d. utf8_decode b = Some d) bs datas"
  shows "\<exists>w'. serve c (Data nb # map Data bs) w = Waiting w'
           \<and> delivered r w'
               = delivered r w @ map utf8_bytes ((strip s @ lit '' joined the chat'')
                                    # map (\<lambda>d. strip s @ lit '': '' @ d) datas)"
proof -
  have pos: "0 < BUFFER_SIZE" by (simp add: BUFFER_SIZE_def)
  have rr: "recv_results BUFFER_SIZE (Data nb # map Data bs) = Bytes nb # map Bytes bs"
    using assms(9,10,12) pos by (simp add: chop_fits recv_results_fit)
  from handshake_ok [OF assms(1,3,4,11), of "map Bytes bs"]
  obtain w2 where w2: "handle_client c (Bytes nb # map Bytes bs) w
        = recv_loop c (strip s) (map Bytes bs) w2"
    "clients w2 = dict_set (clients w) c (strip s)" "\<not> lock w2"
    "broken w2 = broken w" "closed w2 = closed w"
    "\<forall>d. delivered d w2 = delivered d w @
                 (if d = c then [utf8_bytes welcome_msg]
                  else if d \<notin> broken w \<and> d \<notin> closed w
                  then replicate (count_list (dict_keys (clients w)) d)
                         (utf8_bytes (strip s @ lit '' joined the chat''))
                  else [])"
    by blast
  have dr: "delivered r w2 = delivered r w @ [utf8_bytes (strip s @ lit '' joined the chat'')]"
    using w2(6) [rule_format, of r] assms(2,5,6,7,8) by (simp add: count_list_distinct)
  have sc: "list_all scalar (strip s)"
    using assms(11) by (auto intro: scalar_strip dest: scalar_decode)
  have l2: "list_all2 (\<lambda>b d. utf8_decode b = Some d \<and> d \<noteq> []) bs datas"
    using assms(13,12)
    by (induction bs datas rule: list_all2_induct) (auto dest: utf8_decode_empty)
  have "\<exists>w'. recv_loop c (strip s) (map Bytes bs) w2 = Waiting w'
           \<and> delivered r w' = delivered r w2
                 @ map (\<lambda>d. utf8_bytes (strip s @ lit '': '' @ d)) datas"
    using l2 w2 assms sc
    by (intro recv_loop_relays_each) (simp_all add: distinct_dict_set dict_keys_dict_set)
  then obtain w' where w': "recv_loop c (strip s) (map Bytes bs) w2 = Waiting w'"
    "delivered r w' = delivered r w2 @ map (\<lambda>d. utf8_bytes (strip s @ lit '': '' @ d)) datas"
    by blast
  show ?thesis
    unfolding serve_def rr w2(1) using w' dr
    by (intro exI [of _ w']) (simp add: comp_def)
qed

section \<open>Concrete runs\<close>

text \<open>The definitions a run on concrete input unfolds.\<close>

lemmas eval_defs = serve_def handle_client_def handshake_def register_def cleanup_def
  broadcast_def send_quietly_def sock_send_def sock_close_def acquire_def release_def emit_def
  dict_set_def dict_pop_def dict_keys_def BUFFER_SIZE_def welcome_msg_def
  utf8_bytes_def utf8_encode_def utf8_decode_def utf8_char_def lit_def scalar_def cont_def
  strip_def isspace_def chop.simps Let_def delivered_def

theorem failed_handshake_leaves_no_trace_witness:
  "\<not> lock lobby \<and> map_of (clients lobby) 1 = None
   \<and> (1 \<in> broken lobby \<or> 1 \<in> closed lobby \<or> [Bytes [0xFF]] = RecvError # []
        \<or> ([Bytes [0xFF]] = Bytes [0xFF] # [] \<and> utf8_decode [0xFF] = None))
   \<and> (\<exists>w' g. handle_client 1 [Bytes [0xFF]] lobby = Done w' \<and> clients w' = clients lobby
           \<and> \<not> lock w' \<and> 1 \<in> closed w'
           \<and> send_target g = Some 1
           \<and> trace w' = trace lobby @ [g, Acquire, Release, Closed 1]
           \<and> (\<forall>d. d \<noteq> 1 \<longrightarrow> delivered d w' = delivered d lobby))"
proof -
  have h: "\<not> lock lobby" "map_of (clients lobby) 1 = None" "utf8_decode [0xFF] = None"
    by (simp_all add: lobby_def utf8_decode_def)
  show ?thesis
    using h failed_handshake_leaves_no_trace [of lobby 1 "[Bytes [0xFF]]" "[]" "[0xFF]"]
    by simp
qed

theorem handshake_takes_any_name_witness:
  "\<not> lock lobby \<and> distinct (dict_keys (clients lobby)) \<and> 1 \<notin> broken lobby
   \<and> 1 \<notin> closed lobby \<and> utf8_decode [32, 32] = Some [32, 32] \<and> strip [32, 32] = []
   \<and> (\<exists>w'. handle_client 1 [Bytes [32, 32]] lobby = Waiting w'
           \<and> clients w' = [(2, lit ''bob''), (1, [])]
           \<and> map_of (clients w') 1 = Some []
           \<and> delivered 2 w' = [utf8_bytes (lit '' joined the chat'')])"
proof -
  have h: "\<not> lock lobby" "distinct (dict_keys (clients lobby))" "1 \<notin> broken lobby"
    "1 \<notin> closed lobby" "utf8_decode [32, 32] = Some [32, 32]"
    by (simp_all add: lobby_def dict_keys_def utf8_decode_def)
  have s: "strip [32, 32] = []" by (simp add: strip_def isspace_def)
  from handshake_takes_any_name [OF h, of "[]"]
  obtain w' where w': "handle_client 1 [Bytes [32, 32]] lobby = recv_loop 1 (strip [32, 32]) [] w'"
    "clients w' = dict_set (clients lobby) 1 (strip [32, 32])"
    "map_of (clients w') 1 = Some (strip [32, 32])"
    "\<forall>d. d \<noteq> 1 \<and> d \<in> set (dict_keys (clients lobby)) \<and> d \<notin> broken lobby \<and> d \<notin> closed lobby
         \<longrightarrow> delivered d w' = delivered d lobby
               @ [utf8_bytes (strip [32, 32] @ lit '' joined the chat'')]"
    by blast
  have c: "clients w' = [(2, lit ''bob''), (1, [])]"
    using w'(2) by (simp add: s lobby_def dict_set_def dict_keys_def)
  have d: "delivered 2 w' = [utf8_bytes (lit '' joined the chat'')]"
    using w'(4) [rule_format, of 2] by (simp add: s lobby_def dict_keys_def delivered_def)
  show ?thesis
    using h s c d w'(1,3) by simp
qed

lemma alice_bytes: "utf8_bytes (lit ''alice'') = [97, 108, 105, 99, 101]"
  by (simp add: utf8_bytes_def lit_def utf8_char_def)

lemma alice_decodes: "utf8_decode [97, 108, 105, 99, 101] = Some (lit ''alice'')"
  by (simp add: utf8_decode_def lit_def)

lemma strip_alice: "strip (lit ''alice'') = lit ''alice''"
  by (simp add: strip_def isspace_def lit_def)

theorem relayed_payload_format_witness:
  "\<not> lock lobby \<and> distinct (dict_keys (clients lobby)) \<and> 1 \<notin> broken lobby
   \<and> 1 \<notin> closed lobby \<and> 2 \<in> set (dict_keys (clients lobby)) \<and> (2::nat) \<noteq> 1
   \<and> 2 \<notin> broken lobby \<and> 2 \<notin> closed lobby
   \<and> utf8_decode [97, 108, 105, 99, 101] = Some (lit ''alice'')
   \<and> (\<exists>datas. delivered 2 (world_of (handle_client 1
                   (Bytes [97, 108, 105, 99, 101] # [Bytes [104, 105], Bytes []]) lobby))
             = delivered 2 lobby @ map utf8_bytes ((lit ''alice'' @ lit '' joined the chat'')
                                  # map (\<lambda>d. lit ''alice'' @ lit '': '' @ d) datas)
           \<and> set datas \<subseteq> {d. \<exists>b. Bytes b \<in> set [Bytes [104, 105], Bytes []]
                                  \<and> utf8_decode b = Some d}
           \<and> (\<forall>w'. handle_client 1 (Bytes [97, 108, 105, 99, 101]
                        # [Bytes [104, 105], Bytes []]) lobby = Waiting w'
                 \<longrightarrow> map_of (clients w') 1 = Some (lit ''alice'')))"
proof -
  have h: "\<not> lock lobby" "distinct (dict_keys (clients lobby))" "1 \<notin> broken lobby"
    "1 \<notin> closed lobby" "2 \<in> set (dict_keys (clients lobby))" "(2::nat) \<noteq> 1"
    "2 \<notin> broken lobby" "2 \<notin> closed lobby"
    by (simp_all add: lobby_def dict_keys_def)
  show ?thesis
    using h alice_decodes
      relayed_payload_format [OF h alice_decodes, of "[Bytes [104, 105], Bytes []]"]
    by (simp only: strip_alice simp_thms)
qed

theorem one_message_per_read_witness:
  "\<not> lock lobby \<and> distinct (dict_keys (clients lobby)) \<and> 1 \<notin> broken lobby
   \<and> 1 \<notin> closed lobby \<and> 2 \<in> set (dict_keys (clients lobby)) \<and> (2::nat) \<noteq> 1
   \<and> 2 \<notin> broken lobby \<and> 2 \<notin> closed lobby
   \<and> [97, 108, 105, 99, 101] \<noteq> ([] :: bytes)
   \<and> length ([97, 108, 105, 99, 101] :: bytes) \<le> BUFFER_SIZE
   \<and> utf8_decode [97, 108, 105, 99, 101] = Some (lit ''alice'')
   \<and> list_all (\<lambda>b. b \<noteq> [] \<and> length b \<le> BUFFER_SIZE) [[104], [105 :: byte]]
   \<and> list_all2 (\<lambda>b d. utf8_decode b = Some d) [[104], [105]] [[104], [105]]
   \<and> (\<exists>w'. serve 1 (Data [97, 108, 105, 99, 101] # map Data [[104], [105]]) lobby = Waiting w'
           \<and> delivered 2 w'
               = delivered 2 lobby @ map utf8_bytes ((lit ''alice'' @ lit '' joined the chat'')
                   # map (\<lambda>d. lit ''alice'' @ lit '': '' @ d) [[104], [105]]))"
proof -
  have h: "\<not> lock lobby" "distinct (dict_keys (clients lobby))" "1 \<notin> broken lobby"
    "1 \<notin> closed lobby" "2 \<in> set (dict_keys (clients lobby))" "(2::nat) \<noteq> 1"
    "2 \<notin> broken lobby" "2 \<notin> closed lobby"
    by (simp_all add: lobby_def dict_keys_def)
  have n: "[97, 108, 105, 99, 101] \<noteq> ([] :: bytes)"
    "length ([97, 108, 105, 99, 101] :: bytes) \<le> BUFFER_SIZE"
    by (simp_all add: BUFFER_SIZE_def)
  have c: "list_all (\<lambda>b. b \<noteq> [] \<and> length b \<le> BUFFER_SIZE) [[104], [105 :: byte]]"
    "list_all2 (\<lambda>b d. utf8_decode b = Some d) [[104], [105]] [[104], [105]]"
    by (simp_all add: BUFFER_SIZE_def utf8_decode_def)
  show ?thesis
    using h n c alice_decodes one_message_per_read [OF h n alice_decodes c]
    by (simp only: strip_alice simp_thms)
qed

text \<open>
  \<open>alice\<close> joins the lobby and her client sends \<open>hi\<close>, which arrives as two segments.
\<close>

lemma alice_split_session:
  "serve 1 [Data (utf8_bytes (lit ''alice'')), Data [104], Data [105]] lobby =
     Waiting \<lparr>clients = [(2, lit ''bob''), (1, lit ''alice'')], lock = False,
              broken = {}, closed = {},
              trace = [Sent 1 (utf8_bytes welcome_msg), Acquire, Release, Acquire,
                       Sent 2 (utf8_bytes (lit ''alice joined the chat'')), Release, Acquire,
                       Sent 2 (utf8_bytes (lit ''alice: h'')), Release, Acquire,
                       Sent 2 (utf8_bytes (lit ''alice: i'')), Release]\<rparr>"
  by (simp add: eval_defs lobby_def)

text \<open>
  C1, as the spec states it, fails: the two segments of the one message \<open>hi\<close> reach
  \<open>bob\<close> as two messages, and none of the three byte strings sent to \<open>bob\<close> is a frame,
  while the frame of a text decodes to that text.
\<close>

theorem unframed_wire_counterexample:
  "\<exists>w'. serve 1 [Data (utf8_bytes (lit ''alice'')), Data [104], Data [105]] lobby = Waiting w'
     \<and> delivered 2 w' = [utf8_bytes (lit ''alice joined the chat''),
                          utf8_bytes (lit ''alice: h''), utf8_bytes (lit ''alice: i'')]
     \<and> frame_decode (utf8_bytes (lit ''alice joined the chat'')) = None
     \<and> frame_decode (utf8_bytes (lit ''alice: h'')) = None
     \<and> frame_decode (utf8_bytes (lit ''alice: i'')) = None
     \<and> frame_decode (frame_encode (utf8_bytes (lit ''alice: hi'')))
         = Some (utf8_bytes (lit ''alice: hi''))"
proof -
  have f: "frame_decode (utf8_bytes (lit ''alice joined the chat'')) = None"
    "frame_decode (utf8_bytes (lit ''alice: h'')) = None"
    "frame_decode (utf8_bytes (lit ''alice: i'')) = None"
    "frame_decode (frame_encode (utf8_bytes (lit ''alice: hi'')))
         = Some (utf8_bytes (lit ''alice: hi''))"
    by (simp_all add: frame_decode_def frame_encode_def be32_def be32_value_def
        utf8_bytes_def lit_def utf8_char_def)
  show ?thesis
    unfolding alice_split_session using f by (simp add: delivered_def)
qed

text \<open>
  C2 on the code. \<open>alice\<close> joins the lobby and her connection ends. The \<open>finally\<close> block
  removes her from the registry and calls \<open>broadcast\<close> with the lock still held, which
  never returns: \<open>bob\<close> has received the notice that she joined and nothing after it, her
  socket is not closed, the lock stays held, and from then on a broadcast for \<open>bob\<close> and
  the registration of a new client block too.
\<close>

theorem leave_notice_deadlocks:
  "\<exists>w'. serve 1 [Data (utf8_bytes (lit ''alice'')), Eof] lobby = Deadlock w'
     \<and> lock w'
     \<and> map_of (clients w') 1 = None
     \<and> map_of (clients w') 2 = Some (lit ''bob'')
     \<and> delivered 2 w' = [utf8_bytes (lit ''alice joined the chat'')]
     \<and> 1 \<notin> closed w'
     \<and> broadcast (lit ''bob: hello'') (Some 2) w' = Deadlock w'
     \<and> (\<exists>w''. serve 3 [Data (utf8_bytes (lit ''carol''))] w' = Deadlock w''
            \<and> map_of (clients w'') 3 = None)"
proof -
  let ?w = "\<lparr>clients = [(2, lit ''bob'')], lock = True, broken = {}, closed = {},
              trace = [Sent 1 (utf8_bytes welcome_msg), Acquire, Release, Acquire,
                       Sent 2 (utf8_bytes (lit ''alice joined the chat'')), Release,
                       Acquire]\<rparr>"
  have 1: "serve 1 [Data (utf8_bytes (lit ''alice'')), Eof] lobby = Deadlock ?w"
    by (simp add: eval_defs lobby_def)
  have 2: "broadcast (lit ''bob: hello'') (Some 2) ?w = Deadlock ?w"
    by (simp add: broadcast_def)
  have 3: "serve 3 [Data (utf8_bytes (lit ''carol''))] ?w
            = Deadlock (?w\<lparr>trace := trace ?w @ [Sent 3 (utf8_bytes welcome_msg)]\<rparr>)"
    by (simp add: eval_defs)
  show ?thesis
    unfolding 1 using 2 3 by (simp add: delivered_def)
qed

text \<open>
  A connection that ends before it has sent a name: the empty name is registered and
  announced, the loop reads the end of the stream, and the \<open>finally\<close> block blocks on
  the lock it holds.
\<close>

lemma end_of_stream_at_handshake:
  "serve 1 [Eof] lobby =
     Deadlock \<lparr>clients = [(2, lit ''bob'')], lock = True, broken = {}, closed = {},
               trace = [Sent 1 (utf8_bytes welcome_msg), Acquire, Release, Acquire,
                        Sent 2 (utf8_bytes (lit '' joined the chat'')), Release,
                        Acquire]\<rparr>"
  by (simp add: eval_defs lobby_def)


end
